theory Spec2Isabelle
  imports Main "HOL-Library.Word"
begin

unbundle bit_operations_syntax

section \<open>The address translator sub-device of the xocl driver\<close>

text \<open>
  A shallow embedding of \<^verbatim>\<open>xocl/subdev/address_translator.c\<close>: the register window of
  the translation unit, the capacity query \<^verbatim>\<open>addr_translator_get_entries_num\<close>, the
  table programming routine \<^verbatim>\<open>addr_translator_set_page_table\<close> and the sysfs attribute
  \<^verbatim>\<open>num_show\<close>.
\<close>

type_synonym u32 = "32 word"
type_synonym u64 = "64 word"

subsection \<open>Register map: the layout of \<^verbatim>\<open>struct trans_regs\<close>\<close>

text \<open>
  Every member of \<^verbatim>\<open>struct trans_regs\<close> is naturally aligned, so each one starts where
  the previous one ends. Offsets are in bytes from the start of the window.
  \<^verbatim>\<open>struct trans_addr\<close> is a pair of \<^verbatim>\<open>u32\<close>: \<^verbatim>\<open>lo\<close> at 0 and \<^verbatim>\<open>hi\<close> at 4, 8 bytes in all.
\<close>

definition sizeof_u32 :: nat where
  "sizeof_u32 = 4"

definition sizeof_trans_addr :: nat where
  "sizeof_trans_addr = 2 * sizeof_u32"

definition off_ver :: nat where
  "off_ver = 0"

definition off_cap :: nat where
  "off_cap = off_ver + sizeof_u32"

definition off_entry_num :: nat where
  "off_entry_num = off_cap + sizeof_u32"

definition off_unused :: nat where
  "off_unused = off_entry_num + sizeof_u32"

definition off_base_addr_lo :: nat where
  "off_base_addr_lo = off_unused + sizeof_u32"

definition off_base_addr_hi :: nat where
  "off_base_addr_hi = off_base_addr_lo + sizeof_u32"

definition off_addr_range :: nat where
  "off_addr_range = off_base_addr_lo + sizeof_trans_addr"

definition off_padding :: nat where
  "off_padding = off_addr_range + sizeof_u32"

definition off_page_table_phys :: nat where
  "off_page_table_phys = off_padding + 2020"

definition off_page_table_lo :: "nat \<Rightarrow> nat" where
  "off_page_table_lo i = off_page_table_phys + sizeof_trans_addr * i"

definition off_page_table_hi :: "nat \<Rightarrow> nat" where
  "off_page_table_hi i = off_page_table_phys + sizeof_trans_addr * i + sizeof_u32"

text \<open>The array \<^verbatim>\<open>page_table_phys\<close> has 256 elements, so the struct ends at \<^verbatim>\<open>0x1000\<close>.\<close>

definition page_table_len :: nat where
  "page_table_len = 256"

definition sizeof_trans_regs :: nat where
  "sizeof_trans_regs = off_page_table_phys + sizeof_trans_addr * page_table_len"

subsection \<open>The device\<close>

text \<open>
  \<^verbatim>\<open>struct addr_translator\<close> holds the mapped window \<^verbatim>\<open>base\<close>. The window is a store from
  byte offset to 32-bit value. The field \<open>wlog\<close> is not in the C struct: it records every
  call of \<^verbatim>\<open>xocl_dr_reg_write32\<close>, oldest first, so that statements about which writes
  happen and in what order can be made. The mutex \<^verbatim>\<open>lock\<close> is taken at the start and
  released at the end of both operations; a single call runs to completion, so the model
  of one call leaves it out.
\<close>

record addr_translator =
  base :: "nat \<Rightarrow> u32"
  wlog :: "(nat \<times> u32) list"

text \<open>
  Modelled from the spec: \<^verbatim>\<open>xocl_dr_reg_read32\<close> and \<^verbatim>\<open>xocl_dr_reg_write32\<close> are declared
  in \<^verbatim>\<open>xocl_drv.h\<close>, which is not among the sources. The spec's RegisterFile gives
  \<^verbatim>\<open>read32(offset) -> u32\<close> and \<^verbatim>\<open>write32(offset, value)\<close> on an offset-addressed window
  with no caching, for which an in-memory register file can be substituted: a read
  returns the value last written to the offset.
\<close>

definition xocl_dr_reg_read32 :: "addr_translator \<Rightarrow> nat \<Rightarrow> u32" where
  "xocl_dr_reg_read32 s off = base s off"

definition xocl_dr_reg_write32 :: "u32 \<Rightarrow> nat \<Rightarrow> addr_translator \<Rightarrow> addr_translator" where
  "xocl_dr_reg_write32 v off s =
     s\<lparr>base := (base s)(off := v), wlog := wlog s @ [(off, v)]\<rparr>"

subsection \<open>Helpers of \<^verbatim>\<open>linux/log2.h\<close>\<close>

text \<open>
  Modelled from the spec: \<^verbatim>\<open>is_power_of_2\<close> and \<^verbatim>\<open>ilog2\<close> come from the kernel header
  \<^verbatim>\<open>linux/log2.h\<close>, which is not among the sources. The spec asks for a power-of-two
  test and for a truncated base-2 logarithm. The definitions follow the header:
  \<^verbatim>\<open>is_power_of_2(n)\<close> is \<^verbatim>\<open>n != 0 && ((n & (n - 1)) == 0)\<close> on an \<^verbatim>\<open>unsigned long\<close>, and
  \<^verbatim>\<open>ilog2\<close> of a 64-bit run-time value is \<^verbatim>\<open>fls64(n) - 1\<close>, an \<^verbatim>\<open>int\<close>, where \<^verbatim>\<open>fls64\<close> is
  the 1-based position of the most significant set bit and \<^verbatim>\<open>fls64(0) = 0\<close>.
\<close>

definition is_power_of_2 :: "u64 \<Rightarrow> bool" where
  "is_power_of_2 n = (n \<noteq> 0 \<and> n AND (n - 1) = 0)"

fun fls :: "nat \<Rightarrow> nat" where
  "fls n = (if n = 0 then 0 else Suc (fls (n div 2)))"

declare fls.simps [simp del]

definition fls64 :: "u64 \<Rightarrow> nat" where
  "fls64 n = fls (unat n)"

definition ilog2 :: "u64 \<Rightarrow> int" where
  "ilog2 n = int (fls64 n) - 1"

text \<open>\<^verbatim>\<open>EINVAL\<close> of \<^verbatim>\<open>errno-base.h\<close>.\<close>

definition EINVAL :: int where
  "EINVAL = 22"

subsection \<open>\<^verbatim>\<open>addr_translator_get_entries_num\<close>\<close>

text \<open>
  \<^verbatim>\<open>num = (xocl_dr_reg_read32(xdev, &regs->cap)>>16 & 0x1ff)\<close>: in C the shift binds
  tighter than the bitwise and. The function returns \<^verbatim>\<open>num\<close>; the device is returned
  beside it so that its effect on the device can be stated.
\<close>

definition addr_translator_get_entries_num :: "addr_translator \<Rightarrow> u32 \<times> addr_translator" where
  "addr_translator_get_entries_num s =
     (let num = drop_bit 16 (xocl_dr_reg_read32 s off_cap) AND 0x1ff
      in (num, s))"

subsection \<open>\<^verbatim>\<open>addr_translator_set_page_table\<close>\<close>

text \<open>
  The caller passes \<^verbatim>\<open>phys_addrs\<close> as a pointer; the model takes the caller's array as a
  list. Reading \<^verbatim>\<open>phys_addrs[i]\<close> beyond the end of that array is undefined behaviour in
  C, which the model reports as \<open>Read_past_end\<close> instead of a return value.
\<close>

datatype outcome = Returned int | Read_past_end

text \<open>
  The \<^verbatim>\<open>for\<close> loop. The counter \<^verbatim>\<open>i\<close> is an \<^verbatim>\<open>int\<close> compared with the \<^verbatim>\<open>uint32_t num\<close>;
  the loop is entered only with \<^verbatim>\<open>num\<close> at most \<^verbatim>\<open>0x1ff\<close>, so the counter stays far from
  overflow and is a natural number here. The result is \<open>Some\<close> of the outcome when the
  loop is left by \<^verbatim>\<open>goto done\<close> and \<open>None\<close> when it runs to its end.
\<close>

function set_page_table_loop ::
  "u64 list \<Rightarrow> u32 \<Rightarrow> nat \<Rightarrow> addr_translator \<Rightarrow> outcome option \<times> addr_translator" where
  "set_page_table_loop phys_addrs num i s =
     (if i < unat num then
        (if i < length phys_addrs then
           (let addr = phys_addrs ! i in
            if addr = 0 then (Some (Returned (- EINVAL)), s)
            else
              let s1 = xocl_dr_reg_write32 (ucast (addr AND 0xFFFFFFFF)) (off_page_table_lo i) s;
                  addr' = drop_bit 32 addr;
                  s2 = xocl_dr_reg_write32 (ucast addr') (off_page_table_hi i) s1
              in set_page_table_loop phys_addrs num (i + 1) s2)
         else (Some Read_past_end, s))
      else (None, s))"
  by pat_completeness auto
termination
  by (relation "measure (\<lambda>(phys_addrs, num, i, s). unat num - i)") auto

declare set_page_table_loop.simps [simp del]

text \<open>
  \<^verbatim>\<open>uint64_t range = num * entry_sz\<close>: \<^verbatim>\<open>num\<close> is converted to 64 bits and the product
  wraps modulo \<open>2 ^ 64\<close>. \<^verbatim>\<open>range_in_log\<close> is a \<^verbatim>\<open>uint32_t\<close>, so the \<^verbatim>\<open>int\<close> that \<^verbatim>\<open>ilog2\<close>
  returns is converted to 32 bits unsigned.
\<close>

definition addr_translator_set_page_table ::
  "u64 list \<Rightarrow> u64 \<Rightarrow> u64 \<Rightarrow> u32 \<Rightarrow> addr_translator \<Rightarrow> outcome \<times> addr_translator" where
  "addr_translator_set_page_table phys_addrs base_addr entry_sz num s =
     (let range = ucast num * entry_sz;
          num_max = drop_bit 16 (xocl_dr_reg_read32 s off_cap) AND 0x1ff
      in if num > num_max then (Returned (- EINVAL), s)
         else if \<not> is_power_of_2 (ucast num) then (Returned (- EINVAL), s)
         else
           (case set_page_table_loop phys_addrs num 0 s of
              (Some out, s') \<Rightarrow> (out, s')
            | (None, s1) \<Rightarrow>
                let s2 = xocl_dr_reg_write32 (ucast (base_addr AND 0xFFFFFFFF)) off_base_addr_lo s1;
                    s3 = xocl_dr_reg_write32 (ucast (drop_bit 32 base_addr AND 0xFFFFFFFF))
                           off_base_addr_hi s2;
                    range_in_log = word_of_int (ilog2 range);
                    s4 = xocl_dr_reg_write32 range_in_log off_addr_range s3;
                    s5 = xocl_dr_reg_write32 num off_entry_num s4
                in (Returned 0, s5)))"

subsection \<open>\<^verbatim>\<open>num_show\<close>\<close>

text \<open>
  \<^verbatim>\<open>sprintf(buf, "0x%x\n", num)\<close>: \<^verbatim>\<open>%x\<close> prints an unsigned value in lower-case
  hexadecimal with no leading zeros, and \<^verbatim>\<open>sprintf\<close> returns the number of characters
  written. The model returns that number, the buffer and the device.
\<close>

definition hex_digit :: "nat \<Rightarrow> char" where
  "hex_digit d = ''0123456789abcdef'' ! (d mod 16)"

fun hex_nat :: "nat \<Rightarrow> string" where
  "hex_nat n = (if n < 16 then [hex_digit n] else hex_nat (n div 16) @ [hex_digit (n mod 16)])"

declare hex_nat.simps [simp del]

definition hex_u32 :: "u32 \<Rightarrow> string" where
  "hex_u32 w = hex_nat (unat w)"

definition num_show :: "addr_translator \<Rightarrow> int \<times> string \<times> addr_translator" where
  "num_show s =
     (let (num, s') = addr_translator_get_entries_num s;
          buf = ''0x'' @ hex_u32 num @ [CHR 0x0A]
      in (int (length buf), buf, s'))"

text \<open>
  The number that a string of lower-case hexadecimal digits denotes, to state what the
  printed digits mean.
\<close>

definition hex_digit_value :: "char \<Rightarrow> nat" where
  "hex_digit_value c = length (takeWhile (\<lambda>d. d \<noteq> c) ''0123456789abcdef'')"

definition hex_value :: "string \<Rightarrow> nat" where
  "hex_value cs = foldl (\<lambda>a c. 16 * a + hex_digit_value c) 0 cs"

subsection \<open>Write sequences\<close>

text \<open>
  The two register writes that one pass of the loop makes for entry \<open>i\<close>, the writes of
  the passes \<open>i, \<dots>, n - 1\<close> in order, and the replay of a sequence of writes on a
  device. They are used to state what the operations do.
\<close>

definition entry_writes :: "u64 list \<Rightarrow> nat \<Rightarrow> (nat \<times> u32) list" where
  "entry_writes phys_addrs i =
     [(off_page_table_lo i, ucast (phys_addrs ! i AND 0xFFFFFFFF)),
      (off_page_table_hi i, ucast (drop_bit 32 (phys_addrs ! i)))]"

definition table_writes :: "u64 list \<Rightarrow> nat \<Rightarrow> nat \<Rightarrow> (nat \<times> u32) list" where
  "table_writes phys_addrs i n = concat (map (entry_writes phys_addrs) [i..<n])"

definition apply_writes :: "(nat \<times> u32) list \<Rightarrow> addr_translator \<Rightarrow> addr_translator" where
  "apply_writes ws s = foldl (\<lambda>t w. xocl_dr_reg_write32 (snd w) (fst w) t) s ws"

text \<open>The byte offsets that lie in the page-table array of the register window.\<close>

definition in_page_table :: "nat \<Rightarrow> bool" where
  "in_page_table off =
     (off_page_table_phys \<le> off \<and> off + sizeof_u32 \<le> sizeof_trans_regs)"

text \<open>
  The four writes that follow the loop, in program order: the two halves of
  \<^verbatim>\<open>base_addr\<close>, the logarithm of the range, and the entry count.
\<close>

definition commit_writes :: "u64 \<Rightarrow> u64 \<Rightarrow> u32 \<Rightarrow> (nat \<times> u32) list" where
  "commit_writes base_addr entry_sz num =
     [(off_base_addr_lo, ucast (base_addr AND 0xFFFFFFFF)),
      (off_base_addr_hi, ucast (drop_bit 32 base_addr AND 0xFFFFFFFF)),
      (off_addr_range, word_of_int (ilog2 (ucast num * entry_sz))),
      (off_entry_num, num)]"

text \<open>The writes that a call has added to the log of a device that started as \<open>s\<close>.\<close>

definition new_writes :: "addr_translator \<Rightarrow> addr_translator \<Rightarrow> (nat \<times> u32) list" where
  "new_writes s s' = drop (length (wlog s)) (wlog s')"

text \<open>
  A device for the examples: the capability register reports 256 apertures (bits 16 to
  24 hold \<^verbatim>\<open>0x100\<close>), the entry-count register holds 4, every other register is zero and
  nothing has been written yet.
\<close>

definition scenario_dev :: addr_translator where
  "scenario_dev = \<lparr>base = (\<lambda>off. if off = 4 then 0x01000000 else if off = 8 then 4 else 0),
                    wlog = []\<rparr>"

section \<open>Auxiliary facts\<close>

lemmas off_defs =
  sizeof_u32_def sizeof_trans_addr_def off_ver_def off_cap_def off_entry_num_def
  off_unused_def off_base_addr_lo_def off_base_addr_hi_def off_addr_range_def
  off_padding_def off_page_table_phys_def off_page_table_lo_def off_page_table_hi_def
  page_table_len_def sizeof_trans_regs_def

subsection \<open>Splitting and joining 64-bit addresses\<close>

lemma word_cat_halves:
  "word_cat (ucast (drop_bit 32 a) :: u32) (ucast (a AND 0xFFFFFFFF) :: u32) = (a :: u64)"
proof -
  have m: "(0xFFFFFFFF :: u64) = mask 32" by (simp add: mask_eq_exp_minus_1)
  show ?thesis
    unfolding m
    by (rule bit_word_eqI)
      (auto simp add: bit_word_cat_iff bit_ucast_iff bit_drop_bit_eq bit_and_iff bit_mask_iff)
qed

lemma unat_ucast_u32_u64: "unat (ucast (n :: u32) :: u64) = unat n"
proof -
  have "unat n < 2 ^ 32" using unsigned_less [of n] by simp
  then have "unat n < 2 ^ 64" by simp
  then show ?thesis by (simp add: unsigned_ucast_eq take_bit_nat_eq_self)
qed

subsection \<open>The power-of-two test\<close>

lemma and_even_step: "(2 * m) AND (2 * k + 1) = 2 * (m AND k)" for m k :: nat
  by (subst and_rec) simp

lemma and_odd_step: "(2 * m + 1) AND (2 * m) = 2 * m" for m :: nat
  by (subst and_rec) simp

lemma pow2_nat_aux:
  "0 < n \<Longrightarrow> (n AND (n - 1) = 0) = (\<exists>k. n = 2 ^ k)" for n :: nat
proof (induction n rule: less_induct)
  case (less n)
  show ?case
  proof (cases "even n")
    case True
    then obtain m where m: "n = 2 * m" by (auto elim: evenE)
    with less.prems have mpos: "0 < m" by simp
    have pred: "n - 1 = 2 * (m - 1) + 1" using m mpos by simp
    have step: "n AND (n - 1) = 2 * (m AND (m - 1))"
      unfolding pred unfolding m by (rule and_even_step)
    have ih: "(m AND (m - 1) = 0) = (\<exists>k. m = 2 ^ k)"
      using less.IH [of m] m mpos by simp
    have "(\<exists>k. n = 2 ^ k) = (\<exists>k. m = 2 ^ k)"
    proof
      assume "\<exists>k. n = 2 ^ k"
      then obtain k where k: "n = 2 ^ k" ..
      with m mpos have "k \<noteq> 0" by (cases k) auto
      then obtain k' where "k = Suc k'" by (cases k) auto
      with k m have "m = 2 ^ k'" by simp
      then show "\<exists>k. m = 2 ^ k" ..
    next
      assume "\<exists>k. m = 2 ^ k"
      then obtain k where "m = 2 ^ k" ..
      with m have "n = 2 ^ Suc k" by simp
      then show "\<exists>k. n = 2 ^ k" ..
    qed
    with step ih show ?thesis by simp
  next
    case False
    then obtain m where m: "n = 2 * m + 1" by (auto elim: oddE)
    have step: "n AND (n - 1) = 2 * m"
      unfolding m using and_odd_step [of m] by simp
    have "(\<exists>k. n = 2 ^ k) = (m = 0)"
    proof
      assume "\<exists>k. n = 2 ^ k"
      then obtain k where k: "n = 2 ^ k" ..
      show "m = 0"
      proof (cases k)
        case 0
        with k m show ?thesis by simp
      next
        case (Suc k')
        with k have "even n" by simp
        with False show ?thesis by simp
      qed
    next
      assume "m = 0"
      with m have "n = 2 ^ 0" by simp
      then show "\<exists>k. n = 2 ^ k" ..
    qed
    with step show ?thesis by simp
  qed
qed

lemma is_power_of_2_iff: "is_power_of_2 n \<longleftrightarrow> (\<exists>k. unat n = 2 ^ k)"
proof (cases "n = 0")
  case True
  then show ?thesis by (simp add: is_power_of_2_def)
next
  case False
  then have pos: "0 < unat n" by (simp add: unat_gt_0)
  have "(n AND (n - 1) = 0) = (unat (n AND (n - 1)) = 0)"
    by (simp add: unat_eq_zero)
  also have "unat (n AND (n - 1)) = unat n AND (unat n - 1)"
    using False by (simp add: unsigned_and_eq unat_minus_one)
  finally show ?thesis
    using False pos pow2_nat_aux [of "unat n"] by (simp add: is_power_of_2_def)
qed

lemma is_power_of_2_u32: "is_power_of_2 (ucast (n :: u32)) \<longleftrightarrow> (\<exists>k. unat n = 2 ^ k)"
  by (simp add: is_power_of_2_iff unat_ucast_u32_u64)

lemma pow2_le_511: "(2::nat) ^ k \<le> 511 \<Longrightarrow> (2::nat) ^ k \<le> 256"
proof (rule ccontr)
  assume a: "(2::nat) ^ k \<le> 511" and b: "\<not> (2::nat) ^ k \<le> 256"
  have "8 < k"
  proof (rule ccontr)
    assume "\<not> 8 < k"
    then have "k \<le> 8" by simp
    then have "(2::nat) ^ k \<le> 2 ^ 8" by (rule power_increasing) simp
    with b show False by simp
  qed
  then have "9 \<le> k" by simp
  then have "(2::nat) ^ 9 \<le> 2 ^ k" by (rule power_increasing) simp
  with a show False by simp
qed

subsection \<open>The truncated logarithm\<close>

lemma fls_bounds: "0 < n \<Longrightarrow> 2 ^ (fls n - 1) \<le> n \<and> n < 2 ^ fls n"
proof (induction n rule: fls.induct)
  case (1 n)
  show ?case
  proof (cases "n div 2 = 0")
    case True
    with "1.prems" have "n = 1" by (simp add: div_eq_0_iff)
    then show ?thesis by (simp add: fls.simps [of "Suc 0"] fls.simps [of 0])
  next
    case False
    then have pos: "0 < n div 2" by simp
    with "1.IH" "1.prems"
    have ih: "2 ^ (fls (n div 2) - 1) \<le> n div 2 \<and> n div 2 < 2 ^ fls (n div 2)"
      by simp
    have f: "fls n = Suc (fls (n div 2))" using "1.prems" by (subst fls.simps) simp
    have fpos: "0 < fls (n div 2)" using pos by (subst fls.simps) simp
    then obtain r where r: "fls (n div 2) = Suc r" by (cases "fls (n div 2)") auto
    from ih r have "2 ^ r \<le> n div 2" "n div 2 < 2 ^ Suc r" by simp_all
    then have "2 ^ Suc r \<le> n" "n < 2 ^ Suc (Suc r)" by simp_all
    with f r show ?thesis by simp
  qed
qed

subsection \<open>The capacity field\<close>

lemma cap_field_unat:
  "unat (drop_bit 16 (w :: u32) AND 0x1ff) = (unat w div 2 ^ 16) mod 2 ^ 9"
proof -
  have m: "(0x1ff :: u32) = mask 9" by (simp add: mask_eq_exp_minus_1)
  show ?thesis
    unfolding m
    by (simp add: unat_div unat_mod drop_bit_eq_div take_bit_eq_mod flip: take_bit_eq_mask)
qed

lemma cap_field_bit:
  "bit (drop_bit 16 (w :: u32) AND 0x1ff) k \<longleftrightarrow> k < 9 \<and> bit w (16 + k)"
proof -
  have m: "(0x1ff :: u32) = mask 9" by (simp add: mask_eq_exp_minus_1)
  show ?thesis
    unfolding m
    by (auto simp add: bit_and_iff bit_mask_iff bit_drop_bit_eq ac_simps)
qed

subsection \<open>Replaying writes, and the loop\<close>

lemma apply_writes_Nil: "apply_writes [] s = s"
  by (simp add: apply_writes_def)

lemma apply_writes_append: "apply_writes (a @ b) s = apply_writes b (apply_writes a s)"
  by (simp add: apply_writes_def)

lemma apply_writes_Cons:
  "apply_writes (w # ws) s = apply_writes ws (xocl_dr_reg_write32 (snd w) (fst w) s)"
  by (simp add: apply_writes_def)

lemma wlog_apply_writes: "wlog (apply_writes ws s) = wlog s @ ws"
  by (induction ws arbitrary: s) (simp_all add: apply_writes_Nil apply_writes_Cons xocl_dr_reg_write32_def)

lemma base_apply_writes_other:
  "off \<notin> fst ` set ws \<Longrightarrow> base (apply_writes ws s) off = base s off"
  by (induction ws arbitrary: s) (auto simp add: apply_writes_Nil apply_writes_Cons xocl_dr_reg_write32_def)

lemma apply_entry_writes:
  "apply_writes (entry_writes phys i) s =
     xocl_dr_reg_write32 (ucast (drop_bit 32 (phys ! i))) (off_page_table_hi i)
       (xocl_dr_reg_write32 (ucast (phys ! i AND 0xFFFFFFFF)) (off_page_table_lo i) s)"
  by (simp add: entry_writes_def apply_writes_Cons apply_writes_Nil)

lemma table_writes_empty: "n \<le> i \<Longrightarrow> table_writes phys i n = []"
  by (simp add: table_writes_def)

lemma table_writes_Suc:
  "i \<le> n \<Longrightarrow> table_writes phys i (Suc n) = table_writes phys i n @ entry_writes phys n"
  by (simp add: table_writes_def)

lemma table_writes_first:
  "i < n \<Longrightarrow> table_writes phys i n = entry_writes phys i @ table_writes phys (Suc i) n"
  by (simp add: table_writes_def upt_conv_Cons)

lemma table_writes_offsets:
  "w \<in> set (table_writes phys i n) \<Longrightarrow>
     \<exists>j. i \<le> j \<and> j < n \<and> (fst w = off_page_table_lo j \<or> fst w = off_page_table_hi j)"
  by (auto simp add: table_writes_def entry_writes_def)

lemma loop_exit:
  "\<not> i < unat num \<Longrightarrow> set_page_table_loop phys num i s = (None, s)"
  by (subst set_page_table_loop.simps) simp

lemma loop_zero:
  "i < unat num \<Longrightarrow> i < length phys \<Longrightarrow> phys ! i = 0 \<Longrightarrow>
     set_page_table_loop phys num i s = (Some (Returned (- EINVAL)), s)"
  by (subst set_page_table_loop.simps) simp

lemma loop_past_end:
  "i < unat num \<Longrightarrow> \<not> i < length phys \<Longrightarrow>
     set_page_table_loop phys num i s = (Some Read_past_end, s)"
  by (subst set_page_table_loop.simps) simp

lemma loop_step:
  "i < unat num \<Longrightarrow> i < length phys \<Longrightarrow> phys ! i \<noteq> 0 \<Longrightarrow>
     set_page_table_loop phys num i s =
       set_page_table_loop phys num (Suc i) (apply_writes (entry_writes phys i) s)"
  by (subst set_page_table_loop.simps) (simp add: apply_entry_writes Let_def)

lemma loop_prefix:
  "i \<le> k \<Longrightarrow> k \<le> unat num \<Longrightarrow> k \<le> length phys \<Longrightarrow>
   (\<forall>j. i \<le> j \<and> j < k \<longrightarrow> phys ! j \<noteq> 0) \<Longrightarrow>
     set_page_table_loop phys num i s =
       set_page_table_loop phys num k (apply_writes (table_writes phys i k) s)"
proof (induction k)
  case 0
  then show ?case by (simp add: table_writes_empty apply_writes_Nil)
next
  case (Suc k)
  show ?case
  proof (cases "i = Suc k")
    case True
    then show ?thesis by (simp add: table_writes_empty apply_writes_Nil)
  next
    case False
    with Suc.prems have ik: "i \<le> k" by simp
    from Suc.prems have k: "k < unat num" "k < length phys" "phys ! k \<noteq> 0"
      using ik by simp_all
    have "set_page_table_loop phys num i s =
            set_page_table_loop phys num k (apply_writes (table_writes phys i k) s)"
      using Suc.IH Suc.prems ik by simp
    also have "\<dots> = set_page_table_loop phys num (Suc k)
            (apply_writes (entry_writes phys k) (apply_writes (table_writes phys i k) s))"
      using k by (rule loop_step)
    finally show ?thesis
      using ik by (simp add: table_writes_Suc apply_writes_append)
  qed
qed

lemma loop_none:
  "set_page_table_loop phys num i s = (None, s') \<Longrightarrow>
     s' = apply_writes (table_writes phys i (unat num)) s
     \<and> (\<forall>j. i \<le> j \<and> j < unat num \<longrightarrow> j < length phys \<and> phys ! j \<noteq> 0)"
proof (induction phys num i s rule: set_page_table_loop.induct)
  case (1 phys num i s)
  show ?case
  proof (cases "i < unat num")
    case False
    with "1.prems" show ?thesis
      by (auto simp add: loop_exit table_writes_empty apply_writes_Nil)
  next
    case lt: True
    show ?thesis
    proof (cases "i < length phys")
      case False
      with lt "1.prems" show ?thesis by (simp add: loop_past_end)
    next
      case len: True
      show ?thesis
      proof (cases "phys ! i = 0")
        case True
        with lt len "1.prems" show ?thesis by (simp add: loop_zero)
      next
        case nz: False
        have step: "set_page_table_loop phys num (Suc i) (apply_writes (entry_writes phys i) s) = (None, s')"
          using "1.prems" lt len nz by (simp add: loop_step)
        have ih: "s' = apply_writes (table_writes phys (Suc i) (unat num)) (apply_writes (entry_writes phys i) s)
           \<and> (\<forall>j. Suc i \<le> j \<and> j < unat num \<longrightarrow> j < length phys \<and> phys ! j \<noteq> 0)"
          using "1.IH" [OF lt len refl nz refl refl refl] step
          by (simp add: apply_entry_writes)
        have all: "\<forall>j. i \<le> j \<and> j < unat num \<longrightarrow> j < length phys \<and> phys ! j \<noteq> 0"
        proof (intro allI impI)
          fix j assume j: "i \<le> j \<and> j < unat num"
          show "j < length phys \<and> phys ! j \<noteq> 0"
          proof (cases "j = i")
            case True with nz len show ?thesis by simp
          next
            case False with j ih show ?thesis by simp
          qed
        qed
        from ih lt all show ?thesis
          by (simp add: table_writes_first apply_writes_append)
      qed
    qed
  qed
qed

lemma loop_general:
  "\<exists>k. k \<le> unat num \<and> snd (set_page_table_loop phys num i s) = apply_writes (table_writes phys i k) s"
proof (induction phys num i s rule: set_page_table_loop.induct)
  case (1 phys num i s)
  have trivial: "snd (set_page_table_loop phys num i s) = s \<Longrightarrow> ?case"
  proof -
    assume "snd (set_page_table_loop phys num i s) = s"
    then have "0 \<le> unat num \<and> snd (set_page_table_loop phys num i s) = apply_writes (table_writes phys i 0) s"
      by (simp add: table_writes_empty apply_writes_Nil)
    then show ?case ..
  qed
  show ?case
  proof (cases "i < unat num \<and> i < length phys \<and> phys ! i \<noteq> 0")
    case False
    then have "snd (set_page_table_loop phys num i s) = s"
      by (cases "i < unat num"; cases "i < length phys") (auto simp add: loop_exit loop_past_end loop_zero)
    then show ?thesis by (rule trivial)
  next
    case True
    then have lt: "i < unat num" and len: "i < length phys" and nz: "phys ! i \<noteq> 0" by simp_all
    let ?t = "apply_writes (entry_writes phys i) s"
    have "\<exists>k. k \<le> unat num \<and> snd (set_page_table_loop phys num (i + 1) ?t) = apply_writes (table_writes phys (i + 1) k) ?t"
      using "1.IH" [OF lt len refl nz refl refl refl] by (simp add: apply_entry_writes)
    then obtain k where k: "k \<le> unat num"
      and eq: "snd (set_page_table_loop phys num (Suc i) ?t) = apply_writes (table_writes phys (Suc i) k) ?t"
      by auto
    have step: "set_page_table_loop phys num i s = set_page_table_loop phys num (Suc i) ?t"
      using lt len nz by (rule loop_step)
    show ?thesis
    proof (cases "i < k")
      case True
      with eq step have "snd (set_page_table_loop phys num i s) = apply_writes (table_writes phys i k) s"
        by (simp add: table_writes_first apply_writes_append)
      with k show ?thesis by blast
    next
      case False
      with eq step have "snd (set_page_table_loop phys num i s) = apply_writes (table_writes phys i (Suc i)) s"
        by (simp add: table_writes_empty table_writes_Suc apply_writes_Nil)
      moreover have "Suc i \<le> unat num" using lt by simp
      ultimately show ?thesis by blast
    qed
  qed
qed

subsection \<open>What a call of \<^verbatim>\<open>addr_translator_set_page_table\<close> does\<close>

lemma base_table_other:
  "off < off_page_table_phys \<Longrightarrow>
     base (apply_writes (table_writes phys i n) s) off = base s off"
proof (rule base_apply_writes_other)
  assume lt: "off < off_page_table_phys"
  show "off \<notin> fst ` set (table_writes phys i n)"
  proof
    assume "off \<in> fst ` set (table_writes phys i n)"
    then obtain w where "w \<in> set (table_writes phys i n)" and "off = fst w" by auto
    then obtain j where "off = off_page_table_lo j \<or> off = off_page_table_hi j"
      using table_writes_offsets [of w phys i n] by auto
    with lt show False by (auto simp add: off_page_table_lo_def off_page_table_hi_def)
  qed
qed

lemma base_entry_writes:
  "base (apply_writes (entry_writes phys n) t) off =
     (if off = off_page_table_hi n then ucast (drop_bit 32 (phys ! n))
      else if off = off_page_table_lo n then ucast (phys ! n AND 0xFFFFFFFF)
      else base t off)"
  by (simp add: apply_entry_writes xocl_dr_reg_write32_def)

lemma page_table_offsets_distinct:
  "off_page_table_lo j \<noteq> off_page_table_hi n"
  "(off_page_table_lo j = off_page_table_lo n) = (j = n)"
  "(off_page_table_hi j = off_page_table_hi n) = (j = n)"
  by (simp_all add: off_defs) presburger

lemma base_table_entry:
  "i \<le> j \<Longrightarrow> j < n \<Longrightarrow>
     base (apply_writes (table_writes phys i n) s) (off_page_table_lo j)
       = ucast (phys ! j AND 0xFFFFFFFF)
     \<and> base (apply_writes (table_writes phys i n) s) (off_page_table_hi j)
       = ucast (drop_bit 32 (phys ! j))"
proof (induction n)
  case 0
  then show ?case by simp
next
  case (Suc n)
  then have in': "i \<le> n" by simp
  show ?case
  proof (cases "j = n")
    case True
    then show ?thesis
      using in' page_table_offsets_distinct(1) [of n n]
      by (simp add: table_writes_Suc apply_writes_append base_entry_writes)
  next
    case False
    with Suc.prems have "j < n" by simp
    with Suc.IH Suc.prems False show ?thesis
      using in' page_table_offsets_distinct(1) [of j n] page_table_offsets_distinct(1) [of n j]
      by (simp add: table_writes_Suc apply_writes_append base_entry_writes
          page_table_offsets_distinct(2,3))
  qed
qed

lemma set_page_table_reject:
  "\<not> (num \<le> fst (addr_translator_get_entries_num s) \<and> is_power_of_2 (ucast num)) \<Longrightarrow>
     addr_translator_set_page_table phys base_addr entry_sz num s = (Returned (- EINVAL), s)"
  by (auto simp add: addr_translator_set_page_table_def addr_translator_get_entries_num_def
      Let_def not_le)

lemma set_page_table_accept:
  "num \<le> fst (addr_translator_get_entries_num s) \<Longrightarrow> is_power_of_2 (ucast num) \<Longrightarrow>
     addr_translator_set_page_table phys base_addr entry_sz num s =
       (case set_page_table_loop phys num 0 s of
          (Some out, s') \<Rightarrow> (out, s')
        | (None, s1) \<Rightarrow> (Returned 0, apply_writes (commit_writes base_addr entry_sz num) s1))"
proof -
  assume le: "num \<le> fst (addr_translator_get_entries_num s)"
    and pow: "is_power_of_2 (ucast num)"
  from le have ng: "\<not> drop_bit 16 (xocl_dr_reg_read32 s off_cap) AND 0x1ff < num"
    by (simp add: addr_translator_get_entries_num_def not_less)
  show ?thesis
    using ng pow
    by (simp add: addr_translator_set_page_table_def Let_def commit_writes_def
        apply_writes_Cons apply_writes_Nil split: prod.split option.split)
qed

lemma loop_exit_not_success:
  "set_page_table_loop phys num i s = (Some out, s') \<Longrightarrow> out \<noteq> Returned 0"
proof (induction phys num i s rule: set_page_table_loop.induct)
  case (1 phys num i s)
  show ?case
  proof (cases "i < unat num \<and> i < length phys \<and> phys ! i \<noteq> 0")
    case True
    then have "set_page_table_loop phys num i s =
        set_page_table_loop phys num (Suc i) (apply_writes (entry_writes phys i) s)"
      by (simp add: loop_step)
    with "1.prems" True show ?thesis
      using "1.IH" [OF _ _ refl _ refl refl refl] by (simp add: apply_entry_writes)
  next
    case False
    with "1.prems" show ?thesis
      by (cases "i < unat num"; cases "i < length phys")
        (auto simp add: loop_exit loop_past_end loop_zero EINVAL_def)
  qed
qed

lemma set_page_table_success_iff:
  "fst (addr_translator_set_page_table phys base_addr entry_sz num s) = Returned 0 \<longleftrightarrow>
     num \<le> fst (addr_translator_get_entries_num s) \<and> is_power_of_2 (ucast num)
     \<and> (\<forall>j. j < unat num \<longrightarrow> j < length phys \<and> phys ! j \<noteq> 0)"
  (is "?L \<longleftrightarrow> ?R")
proof
  assume L: ?L
  have chk: "num \<le> fst (addr_translator_get_entries_num s) \<and> is_power_of_2 (ucast num)"
  proof (rule ccontr)
    assume "\<not> ?thesis"
    then have "addr_translator_set_page_table phys base_addr entry_sz num s
                 = (Returned (- EINVAL), s)"
      by (rule set_page_table_reject)
    with L show False by (simp add: EINVAL_def)
  qed
  obtain r s1 where loop: "set_page_table_loop phys num 0 s = (r, s1)" by force
  have "r = None"
  proof (cases r)
    case None then show ?thesis .
  next
    case (Some out)
    with loop have "out \<noteq> Returned 0" by (auto dest: loop_exit_not_success)
    with L chk loop Some show ?thesis by (simp add: set_page_table_accept)
  qed
  with loop have "\<forall>j. 0 \<le> j \<and> j < unat num \<longrightarrow> j < length phys \<and> phys ! j \<noteq> 0"
    using loop_none [of phys num 0 s s1] by simp
  with chk show ?R by simp
next
  assume R: ?R
  then have "set_page_table_loop phys num 0 s =
      set_page_table_loop phys num (unat num) (apply_writes (table_writes phys 0 (unat num)) s)"
    by (intro loop_prefix) (auto simp add: not_less [symmetric])
  then have "set_page_table_loop phys num 0 s
      = (None, apply_writes (table_writes phys 0 (unat num)) s)"
    by (simp add: loop_exit)
  with R show ?L by (simp add: set_page_table_accept)
qed

lemma set_page_table_success_state:
  assumes "fst (addr_translator_set_page_table phys base_addr entry_sz num s) = Returned 0"
  shows "snd (addr_translator_set_page_table phys base_addr entry_sz num s) =
           apply_writes (table_writes phys 0 (unat num) @ commit_writes base_addr entry_sz num) s"
proof -
  from assms have R: "num \<le> fst (addr_translator_get_entries_num s)" "is_power_of_2 (ucast num)"
    "\<forall>j. j < unat num \<longrightarrow> j < length phys \<and> phys ! j \<noteq> 0"
    by (simp_all add: set_page_table_success_iff)
  then have "set_page_table_loop phys num 0 s =
      set_page_table_loop phys num (unat num) (apply_writes (table_writes phys 0 (unat num)) s)"
    by (intro loop_prefix) (auto simp add: not_less [symmetric])
  then have "set_page_table_loop phys num 0 s
      = (None, apply_writes (table_writes phys 0 (unat num)) s)"
    by (simp add: loop_exit)
  with R show ?thesis by (simp add: set_page_table_accept apply_writes_append)
qed

lemma set_page_table_zero_state:
  assumes "num \<le> fst (addr_translator_get_entries_num s)" "is_power_of_2 (ucast num)"
    and "k < unat num" "k < length phys" "phys ! k = 0" "\<forall>j<k. phys ! j \<noteq> 0"
  shows "addr_translator_set_page_table phys base_addr entry_sz num s =
           (Returned (- EINVAL), apply_writes (table_writes phys 0 k) s)"
proof -
  have "set_page_table_loop phys num 0 s =
      set_page_table_loop phys num k (apply_writes (table_writes phys 0 k) s)"
    using assms by (intro loop_prefix) auto
  also have "\<dots> = (Some (Returned (- EINVAL)), apply_writes (table_writes phys 0 k) s)"
    using assms by (simp add: loop_zero)
  finally show ?thesis using assms by (simp add: set_page_table_accept)
qed

lemma accepted_num_le_256:
  assumes "num \<le> fst (addr_translator_get_entries_num s)" "is_power_of_2 (ucast num)"
  shows "unat num \<le> 256"
proof -
  have "fst (addr_translator_get_entries_num s) \<le> 0x1ff"
    by (simp add: addr_translator_get_entries_num_def word_and_le1)
  with assms(1) have "num \<le> 0x1ff" by (rule order_trans)
  then have le: "unat num \<le> 511" by (simp add: word_le_nat_alt)
  from assms(2) obtain k where "unat num = 2 ^ k" by (auto simp add: is_power_of_2_u32)
  with le show ?thesis using pow2_le_511 [of k] by simp
qed

lemma set_page_table_general_state:
  "\<exists>k ws. k \<le> unat num \<and> k \<le> 256 \<and> (ws = [] \<or> ws = commit_writes base_addr entry_sz num)
     \<and> snd (addr_translator_set_page_table phys base_addr entry_sz num s)
         = apply_writes (table_writes phys 0 k @ ws) s"
proof (cases "num \<le> fst (addr_translator_get_entries_num s) \<and> is_power_of_2 (ucast num)")
  case False
  then have "snd (addr_translator_set_page_table phys base_addr entry_sz num s)
      = apply_writes (table_writes phys 0 0 @ []) s"
    by (simp add: set_page_table_reject table_writes_empty apply_writes_Nil)
  then show ?thesis by blast
next
  case True
  then have n256: "unat num \<le> 256" by (auto intro: accepted_num_le_256)
  obtain k where k: "k \<le> unat num"
    and st: "snd (set_page_table_loop phys num 0 s) = apply_writes (table_writes phys 0 k) s"
    using loop_general [of num phys 0 s] by auto
  obtain r s1 where loop: "set_page_table_loop phys num 0 s = (r, s1)" by force
  show ?thesis
  proof (cases r)
    case None
    with loop have "s1 = apply_writes (table_writes phys 0 (unat num)) s"
      using loop_none [of phys num 0 s s1] by simp
    with True loop None
    have "snd (addr_translator_set_page_table phys base_addr entry_sz num s)
      = apply_writes (table_writes phys 0 (unat num) @ commit_writes base_addr entry_sz num) s"
      by (simp add: set_page_table_accept apply_writes_append)
    with n256 show ?thesis by blast
  next
    case (Some out)
    with True loop st
    have "snd (addr_translator_set_page_table phys base_addr entry_sz num s)
      = apply_writes (table_writes phys 0 k @ []) s"
      by (simp add: set_page_table_accept)
    moreover have "k \<le> 256" using k n256 by simp
    ultimately show ?thesis using k by blast
  qed
qed

subsection \<open>The example device\<close>

lemma scenario_capacity: "fst (addr_translator_get_entries_num scenario_dev) = 256"
  by (simp add: addr_translator_get_entries_num_def scenario_dev_def xocl_dr_reg_read32_def
      off_defs)

lemma is_power_of_2_four: "is_power_of_2 (ucast (4 :: u32))"
  by (simp add: is_power_of_2_def)

lemma is_power_of_2_one: "is_power_of_2 (ucast (1 :: u32))"
  by (simp add: is_power_of_2_def)

lemma not_is_power_of_2_three: "\<not> (\<exists>k. unat (3 :: u32) = 2 ^ k)"
proof -
  have "\<not> is_power_of_2 (ucast (3 :: u32))" by (simp add: is_power_of_2_def)
  then show ?thesis unfolding is_power_of_2_u32 .
qed

lemma less_four_cases: "j < unat (4 :: u32) \<Longrightarrow> j = 0 \<or> j = 1 \<or> j = 2 \<or> j = 3"
  by auto

lemma scenario_1_accepted:
  "fst (addr_translator_set_page_table [0x1000, 0x2000, 0x3000, 0x4000] base_addr entry_sz 4
          scenario_dev) = Returned 0"
proof -
  have "j < length [0x1000, 0x2000, 0x3000, 0x4000 :: u64]
      \<and> [0x1000, 0x2000, 0x3000, 0x4000 :: u64] ! j \<noteq> 0" if "j < unat (4 :: u32)" for j
    using less_four_cases [OF that] by auto
  with is_power_of_2_four show ?thesis
    by (simp add: set_page_table_success_iff scenario_capacity)
qed

lemma new_writes_apply: "new_writes s (apply_writes ws s) = ws"
  by (simp add: new_writes_def wlog_apply_writes)

lemma table_writes_not_control:
  "w \<in> set (table_writes phys i n) \<Longrightarrow> off_page_table_phys \<le> fst w"
  using table_writes_offsets [of w phys i n]
  by (auto simp add: off_page_table_lo_def off_page_table_hi_def)

lemma scenario_3_table_writes:
  "table_writes [0x1000, 0x2000, 0x0, 0x4000] 0 2 = [(0x800, 0x1000), (0x804, 0), (0x808, 0x2000), (0x80C, 0)]"
  by (simp add: table_writes_def entry_writes_def off_defs upt_conv_Cons)

subsection \<open>The range register\<close>

lemma base_commit_writes:
  "base (apply_writes (commit_writes base_addr entry_sz num) t) off =
     (if off = off_entry_num then num
      else if off = off_addr_range then word_of_int (ilog2 (ucast num * entry_sz))
      else if off = off_base_addr_hi then ucast (drop_bit 32 base_addr AND 0xFFFFFFFF)
      else if off = off_base_addr_lo then ucast (base_addr AND 0xFFFFFFFF)
      else base t off)"
  by (simp add: commit_writes_def apply_writes_Cons apply_writes_Nil xocl_dr_reg_write32_def)

lemma range_register_value:
  assumes "fst (addr_translator_set_page_table phys base_addr entry_sz num s) = Returned 0"
  shows "xocl_dr_reg_read32 (snd (addr_translator_set_page_table phys base_addr entry_sz num s))
           0x18 = word_of_int (ilog2 (ucast num * entry_sz))"
proof -
  have "(0x18 :: nat) = off_addr_range" "off_addr_range \<noteq> off_entry_num"
    by (simp_all add: off_defs)
  then show ?thesis
    using set_page_table_success_state [OF assms]
    by (simp add: xocl_dr_reg_read32_def apply_writes_append base_commit_writes)
qed

lemma unat_range:
  "unat (ucast (num :: u32) * (entry_sz :: u64)) = (unat num * unat entry_sz) mod 2 ^ 64"
  by (simp add: unat_word_ariths unat_ucast_u32_u64)

lemma fls_le: "n < 2 ^ m \<Longrightarrow> fls n \<le> m"
proof (cases "n = 0")
  case True
  then show ?thesis by (simp add: fls.simps [of 0])
next
  case False
  assume lt: "n < 2 ^ m"
  from False have "2 ^ (fls n - 1) \<le> n" using fls_bounds [of n] by simp
  then have "(2::nat) ^ (fls n - 1) < 2 ^ m" using lt by (rule le_less_trans)
  then have "fls n - 1 < m" by (rule power_less_imp_less_exp [rotated]) simp
  then show ?thesis by simp
qed

lemma fls_pos: "0 < n \<Longrightarrow> 0 < fls n"
  by (subst fls.simps) simp

lemma unat_ilog2:
  assumes "p \<noteq> 0"
  shows "unat (word_of_int (ilog2 p) :: u32) = fls (unat p) - 1"
proof -
  from assms have pos: "0 < unat p" by (simp add: unat_gt_0)
  then have f1: "0 < fls (unat p)" by (rule fls_pos)
  have "unat p < 2 ^ 64" using unsigned_less [of p] by simp
  then have f2: "fls (unat p) \<le> 64" by (rule fls_le)
  from f1 have "ilog2 p = int (fls (unat p) - 1)"
    by (simp add: ilog2_def fls64_def of_nat_diff)
  then have "(word_of_int (ilog2 p) :: u32) = of_nat (fls (unat p) - 1)" by simp
  moreover have "fls (unat p) - 1 < 2 ^ 32" using f2 by simp
  ultimately show ?thesis by (simp add: unat_of_nat)
qed

lemma ilog2_bounds:
  assumes "p \<noteq> 0"
  shows "2 ^ unat (word_of_int (ilog2 p) :: u32) \<le> unat p
       \<and> unat p < 2 ^ (unat (word_of_int (ilog2 p) :: u32) + 1)"
proof -
  from assms have pos: "0 < unat p" by (simp add: unat_gt_0)
  then have "0 < fls (unat p)" by (rule fls_pos)
  then have "fls (unat p) - 1 + 1 = fls (unat p)" by simp
  with fls_bounds [OF pos] show ?thesis by (simp add: unat_ilog2 [OF assms])
qed

lemma scenario_single_accepted:
  "fst (addr_translator_set_page_table [0x1000] base_addr entry_sz 1 scenario_dev) = Returned 0"
  using is_power_of_2_one by (simp add: set_page_table_success_iff scenario_capacity)

lemma range_register_truncates:
  "fst (addr_translator_set_page_table [0x1000] base_addr 3 1 scenario_dev) = Returned 0
   \<and> xocl_dr_reg_read32 (snd (addr_translator_set_page_table [0x1000] base_addr 3 1 scenario_dev))
        0x18 = 1"
  by (simp add: scenario_single_accepted range_register_value ilog2_def fls64_def fls.simps)

subsection \<open>The first scenario, in full\<close>

lemma scenario_1_table_writes:
  "table_writes [0x1000, 0x2000, 0x3000, 0x4000] 0 4 =
     [(0x800, 0x1000), (0x804, 0), (0x808, 0x2000), (0x80C, 0),
      (0x810, 0x3000), (0x814, 0), (0x818, 0x4000), (0x81C, 0)]"
  by (simp add: table_writes_def entry_writes_def off_defs upt_conv_Cons)

lemma scenario_1_commit_writes:
  "commit_writes 0x100000000 0x1000 4 = [(0x10, 0), (0x14, 1), (0x18, 14), (0x8, 4)]"
  by (simp add: commit_writes_def off_defs ilog2_def fls64_def fls.simps)

lemma scenario_1_new_writes:
  "new_writes scenario_dev
     (snd (addr_translator_set_page_table [0x1000, 0x2000, 0x3000, 0x4000] 0x100000000 0x1000 4
             scenario_dev))
   = [(0x800, 0x1000), (0x804, 0), (0x808, 0x2000), (0x80C, 0),
      (0x810, 0x3000), (0x814, 0), (0x818, 0x4000), (0x81C, 0),
      (0x10, 0), (0x14, 1), (0x18, 14), (0x8, 4)]"
  by (simp add: set_page_table_success_state [OF scenario_1_accepted] new_writes_apply
      scenario_1_table_writes scenario_1_commit_writes)

subsection \<open>Hexadecimal output\<close>

lemma less_16_cases:
  "d < 16 \<Longrightarrow> d = 0 \<or> d = 1 \<or> d = 2 \<or> d = 3 \<or> d = 4 \<or> d = 5 \<or> d = 6 \<or> d = 7
     \<or> d = 8 \<or> d = 9 \<or> d = 10 \<or> d = 11 \<or> d = 12 \<or> d = 13 \<or> d = 14 \<or> d = (15::nat)"
  by arith

lemma hex_digit_value_hex_digit: "d < 16 \<Longrightarrow> hex_digit_value (hex_digit d) = d"
  by (drule less_16_cases) (auto simp add: hex_digit_value_def hex_digit_def)

lemma hex_value_snoc: "hex_value (cs @ [c]) = 16 * hex_value cs + hex_digit_value c"
  by (simp add: hex_value_def)

lemma hex_value_hex_nat: "hex_value (hex_nat n) = n"
proof (induction n rule: hex_nat.induct)
  case (1 n)
  show ?case
  proof (cases "n < 16")
    case True
    then show ?thesis
      by (subst hex_nat.simps) (simp add: hex_value_def hex_digit_value_hex_digit)
  next
    case False
    with "1.IH" have "hex_value (hex_nat (n div 16)) = n div 16" by simp
    with False show ?thesis
      by (subst hex_nat.simps) (simp add: hex_value_snoc hex_digit_value_hex_digit)
  qed
qed

lemma hex_value_hex_u32: "hex_value (hex_u32 w) = unat w"
  by (simp add: hex_u32_def hex_value_hex_nat)

lemma num_show_unfold:
  "num_show s =
     (int (length (''0x'' @ hex_u32 (drop_bit 16 (base s 0x4) AND 0x1FF) @ [CHR 0x0A])),
      ''0x'' @ hex_u32 (drop_bit 16 (base s 0x4) AND 0x1FF) @ [CHR 0x0A], s)"
  by (simp add: num_show_def addr_translator_get_entries_num_def xocl_dr_reg_read32_def
      off_defs)

lemma scenario_num_show: "fst (snd (num_show scenario_dev)) = ''0x100'' @ [CHR 0x0A]"
  by (simp add: num_show_unfold scenario_dev_def hex_u32_def hex_nat.simps hex_digit_def)

lemma scenario_entry_num_hex:
  "''0x'' @ hex_u32 (xocl_dr_reg_read32 scenario_dev 0x8) = ''0x4''"
  by (simp add: xocl_dr_reg_read32_def scenario_dev_def hex_u32_def hex_nat.simps hex_digit_def)

section \<open>Properties of the driver\<close>

text \<open>
  C1, as amended. \<^verbatim>\<open>num_show\<close> prints the capacity, not the entry count: for every
  state of the registers the buffer holds \<^verbatim>\<open>0x\<close>, then the lower-case hexadecimal digits
  of \<^verbatim>\<open>(cap >> 16) & 0x1ff\<close> where \<^verbatim>\<open>cap\<close> is the capability register at offset \<^verbatim>\<open>0x4\<close>,
  then a newline; the digits denote that number, the return value is the length of the
  buffer, and the device is unchanged. The entry-count register at offset \<^verbatim>\<open>0x8\<close> has no
  influence on the output.
\<close>

theorem C1_status_shows_capacity:
  "num_show s =
     (int (length (''0x'' @ hex_u32 (drop_bit 16 (xocl_dr_reg_read32 s 0x4) AND 0x1FF)
                   @ [CHR 0x0A])),
      ''0x'' @ hex_u32 (drop_bit 16 (xocl_dr_reg_read32 s 0x4) AND 0x1FF) @ [CHR 0x0A],
      s)
   \<and> hex_value (hex_u32 (drop_bit 16 (xocl_dr_reg_read32 s 0x4) AND 0x1FF))
       = (unat (xocl_dr_reg_read32 s 0x4) div 2 ^ 16) mod 2 ^ 9
   \<and> fst (snd (num_show (s\<lparr>base := (base s)(0x8 := v)\<rparr>))) = fst (snd (num_show s))"
  by (simp add: num_show_unfold xocl_dr_reg_read32_def hex_value_hex_u32 cap_field_unat)

text \<open>
  The claim as stated fails on the example device, whose capability register reports
  256 apertures and whose entry-count register holds 4: \<^verbatim>\<open>num_show\<close> prints \<^verbatim>\<open>0x100\<close> and a
  newline, while the entry count in hexadecimal is \<^verbatim>\<open>0x4\<close>.
\<close>

theorem C1_counterexample:
  "fst (snd (num_show scenario_dev)) = ''0x100'' @ [CHR 0x0A]
   \<and> ''0x'' @ hex_u32 (xocl_dr_reg_read32 scenario_dev 0x8) = ''0x4''
   \<and> fst (snd (num_show scenario_dev)) \<noteq> ''0x'' @ hex_u32 (xocl_dr_reg_read32 scenario_dev 0x8)
   \<and> fst (snd (num_show scenario_dev))
       \<noteq> ''0x'' @ hex_u32 (xocl_dr_reg_read32 scenario_dev 0x8) @ [CHR 0x0A]"
proof -
  have a: "fst (snd (num_show scenario_dev)) = ''0x100'' @ [CHR 0x0A]"
    by (rule scenario_num_show)
  have b: "''0x'' @ hex_u32 (xocl_dr_reg_read32 scenario_dev 0x8) = ''0x4''"
    by (rule scenario_entry_num_hex)
  have c: "fst (snd (num_show scenario_dev))
             \<noteq> ''0x'' @ hex_u32 (xocl_dr_reg_read32 scenario_dev 0x8)"
    unfolding a b by simp
  have "''0x'' @ hex_u32 (xocl_dr_reg_read32 scenario_dev 0x8) @ [CHR 0x0A]
          = ''0x4'' @ [CHR 0x0A]"
    using b by simp
  then have d: "fst (snd (num_show scenario_dev))
             \<noteq> ''0x'' @ hex_u32 (xocl_dr_reg_read32 scenario_dev 0x8) @ [CHR 0x0A]"
    unfolding a by simp
  from a b c d show ?thesis by blast
qed

text \<open>
  C2. \<^verbatim>\<open>addr_translator_set_page_table\<close> (the spec's \<^verbatim>\<open>configure\<close>) returns 0 only if
  \<^verbatim>\<open>num\<close> is a power of two and at most the capacity that the capability register
  reports at the time of the call. When either condition fails it returns \<^verbatim>\<open>-EINVAL\<close>
  and the device is the one it started with: no register write is logged and every
  register keeps its value.
\<close>

theorem C2_configure_validation:
  "(fst (addr_translator_set_page_table phys_addrs base_addr entry_sz num s) = Returned 0 \<longrightarrow>
      (\<exists>k. unat num = 2 ^ k) \<and> num \<le> fst (addr_translator_get_entries_num s))
   \<and> (\<not> ((\<exists>k. unat num = 2 ^ k) \<and> num \<le> fst (addr_translator_get_entries_num s)) \<longrightarrow>
      addr_translator_set_page_table phys_addrs base_addr entry_sz num s = (Returned (- EINVAL), s)
      \<and> new_writes s (snd (addr_translator_set_page_table phys_addrs base_addr entry_sz num s))
          = [])"
proof (intro conjI impI)
  assume "fst (addr_translator_set_page_table phys_addrs base_addr entry_sz num s) = Returned 0"
  then have "num \<le> fst (addr_translator_get_entries_num s) \<and> is_power_of_2 (ucast num)"
    by (simp add: set_page_table_success_iff)
  then show "\<exists>k. unat num = 2 ^ k" and "num \<le> fst (addr_translator_get_entries_num s)"
    by (simp_all add: is_power_of_2_u32)
next
  assume "\<not> ((\<exists>k. unat num = 2 ^ k) \<and> num \<le> fst (addr_translator_get_entries_num s))"
  then have "\<not> (num \<le> fst (addr_translator_get_entries_num s) \<and> is_power_of_2 (ucast num))"
    by (auto simp add: is_power_of_2_u32)
  then have r: "addr_translator_set_page_table phys_addrs base_addr entry_sz num s
                  = (Returned (- EINVAL), s)"
    by (rule set_page_table_reject)
  then show "addr_translator_set_page_table phys_addrs base_addr entry_sz num s
               = (Returned (- EINVAL), s)" .
  from r
  show "new_writes s (snd (addr_translator_set_page_table phys_addrs base_addr entry_sz num s))
          = []"
    by (simp add: new_writes_def)
qed

theorem C2_configure_validation_witness:
  "fst (addr_translator_set_page_table [0x1000, 0x2000, 0x3000, 0x4000] 0x100000000 0x1000 4
          scenario_dev) = Returned 0
   \<and> (\<exists>k. unat (4 :: u32) = 2 ^ k)
   \<and> (4 :: u32) \<le> fst (addr_translator_get_entries_num scenario_dev)
   \<and> \<not> ((\<exists>k. unat (3 :: u32) = 2 ^ k)
          \<and> (3 :: u32) \<le> fst (addr_translator_get_entries_num scenario_dev))
   \<and> addr_translator_set_page_table [0x1000, 0x2000, 0x3000, 0x4000] 0x100000000 0x1000 3
        scenario_dev = (Returned (- EINVAL), scenario_dev)
   \<and> new_writes scenario_dev (snd (addr_translator_set_page_table
        [0x1000, 0x2000, 0x3000, 0x4000] 0x100000000 0x1000 3 scenario_dev)) = []"
proof -
  have bad: "\<not> ((\<exists>k. unat (3 :: u32) = 2 ^ k)
      \<and> (3 :: u32) \<le> fst (addr_translator_get_entries_num scenario_dev))"
    using not_is_power_of_2_three by blast
  show ?thesis
    using scenario_1_accepted [of "0x100000000" "0x1000"] bad
      C2_configure_validation [of "[0x1000, 0x2000, 0x3000, 0x4000]" "0x100000000" "0x1000" 4
        scenario_dev]
      C2_configure_validation [of "[0x1000, 0x2000, 0x3000, 0x4000]" "0x100000000" "0x1000" 3
        scenario_dev]
    by blast
qed

text \<open>
  C3. When a call of \<^verbatim>\<open>addr_translator_set_page_table\<close> passes validation, that is
  \<^verbatim>\<open>num\<close> is within the capacity and a power of two and the first \<^verbatim>\<open>num\<close> addresses of
  the caller's array are all non-zero, the call returns 0 and afterwards, for every
  index \<open>i < num\<close>, the register at offset \<^verbatim>\<open>0x800 + 8 i + 4\<close> as the high half joined
  with the register at offset \<^verbatim>\<open>0x800 + 8 i\<close> as the low half is \<^verbatim>\<open>phys_addrs[i]\<close>.
\<close>

theorem C3_page_table_roundtrip:
  assumes "num \<le> fst (addr_translator_get_entries_num s)"
    and "\<exists>k. unat num = 2 ^ k"
    and "unat num \<le> length phys_addrs"
    and "\<forall>i<unat num. phys_addrs ! i \<noteq> 0"
  shows "fst (addr_translator_set_page_table phys_addrs base_addr entry_sz num s) = Returned 0
    \<and> (\<forall>i<unat num.
          word_cat
            (xocl_dr_reg_read32
               (snd (addr_translator_set_page_table phys_addrs base_addr entry_sz num s))
               (0x800 + 8 * i + 4))
            (xocl_dr_reg_read32
               (snd (addr_translator_set_page_table phys_addrs base_addr entry_sz num s))
               (0x800 + 8 * i))
          = phys_addrs ! i)"
proof -
  let ?r = "addr_translator_set_page_table phys_addrs base_addr entry_sz num s"
  have ok: "fst ?r = Returned 0"
    using assms by (simp add: set_page_table_success_iff is_power_of_2_u32)
  then have st: "snd ?r = apply_writes (commit_writes base_addr entry_sz num)
                   (apply_writes (table_writes phys_addrs 0 (unat num)) s)"
    by (simp add: set_page_table_success_state apply_writes_append)
  have rb: "word_cat (xocl_dr_reg_read32 (snd ?r) (0x800 + 8 * i + 4))
                     (xocl_dr_reg_read32 (snd ?r) (0x800 + 8 * i)) = phys_addrs ! i"
    if "i < unat num" for i
  proof -
    have eqs: "off_page_table_lo i = 0x800 + 8 * i" "off_page_table_hi i = 0x800 + 8 * i + 4"
      by (simp_all add: off_defs)
    have nlo: "off_page_table_lo i \<notin> fst ` set (commit_writes base_addr entry_sz num)"
      and nhi: "off_page_table_hi i \<notin> fst ` set (commit_writes base_addr entry_sz num)"
      by (simp_all add: commit_writes_def off_defs)
    have "base (snd ?r) (off_page_table_lo i) = ucast (phys_addrs ! i AND 0xFFFFFFFF)"
      and "base (snd ?r) (off_page_table_hi i) = ucast (drop_bit 32 (phys_addrs ! i))"
      unfolding st
      using base_table_entry [of 0 i "unat num" phys_addrs s] that
      by (simp_all add: base_apply_writes_other [OF nlo] base_apply_writes_other [OF nhi])
    then show ?thesis
      unfolding eqs xocl_dr_reg_read32_def by (simp add: word_cat_halves)
  qed
  from ok rb show ?thesis by blast
qed

theorem C3_page_table_roundtrip_witness:
  "(4 :: u32) \<le> fst (addr_translator_get_entries_num scenario_dev)
   \<and> (\<exists>k. unat (4 :: u32) = 2 ^ k)
   \<and> unat (4 :: u32) \<le> length [0x1000, 0x2000, 0x3000, 0x4000 :: u64]
   \<and> [0x1000, 0x2000, 0x3000, 0x4000 :: u64] ! 0 \<noteq> 0
   \<and> [0x1000, 0x2000, 0x3000, 0x4000 :: u64] ! 1 \<noteq> 0
   \<and> [0x1000, 0x2000, 0x3000, 0x4000 :: u64] ! 2 \<noteq> 0
   \<and> [0x1000, 0x2000, 0x3000, 0x4000 :: u64] ! 3 \<noteq> 0
   \<and> fst (addr_translator_set_page_table [0x1000, 0x2000, 0x3000, 0x4000] 0x100000000 0x1000 4
            scenario_dev) = Returned 0
   \<and> word_cat
        (xocl_dr_reg_read32
           (snd (addr_translator_set_page_table [0x1000, 0x2000, 0x3000, 0x4000] 0x100000000
                   0x1000 4 scenario_dev)) (0x800 + 8 * 2 + 4))
        (xocl_dr_reg_read32
           (snd (addr_translator_set_page_table [0x1000, 0x2000, 0x3000, 0x4000] 0x100000000
                   0x1000 4 scenario_dev)) (0x800 + 8 * 2))
      = (0x3000 :: u64)"
proof -
  have h1: "(4 :: u32) \<le> fst (addr_translator_get_entries_num scenario_dev)"
    by (simp add: scenario_capacity)
  have h2: "\<exists>k. unat (4 :: u32) = 2 ^ k"
    using is_power_of_2_four unfolding is_power_of_2_u32 .
  have h3: "unat (4 :: u32) \<le> length [0x1000, 0x2000, 0x3000, 0x4000 :: u64]" by simp
  have h4: "\<forall>i<unat (4 :: u32). [0x1000, 0x2000, 0x3000, 0x4000 :: u64] ! i \<noteq> 0"
  proof (intro allI impI)
    fix i :: nat
    assume "i < unat (4 :: u32)"
    from less_four_cases [OF this]
    show "[0x1000, 0x2000, 0x3000, 0x4000 :: u64] ! i \<noteq> 0" by auto
  qed
  have two: "2 < unat (4 :: u32)" by simp
  from C3_page_table_roundtrip [OF h1 h2 h3 h4, of "0x100000000" "0x1000"] two
  have "fst (addr_translator_set_page_table [0x1000, 0x2000, 0x3000, 0x4000] 0x100000000 0x1000 4
            scenario_dev) = Returned 0
   \<and> word_cat
        (xocl_dr_reg_read32
           (snd (addr_translator_set_page_table [0x1000, 0x2000, 0x3000, 0x4000] 0x100000000
                   0x1000 4 scenario_dev)) (0x800 + 8 * 2 + 4))
        (xocl_dr_reg_read32
           (snd (addr_translator_set_page_table [0x1000, 0x2000, 0x3000, 0x4000] 0x100000000
                   0x1000 4 scenario_dev)) (0x800 + 8 * 2))
      = [0x1000, 0x2000, 0x3000, 0x4000 :: u64] ! 2"
    by blast
  with h1 h2 h3 h4 show ?thesis by simp
qed

text \<open>
  C4. If \<^verbatim>\<open>num\<close> passes the capacity and the power-of-two checks but \<^verbatim>\<open>phys_addrs[k]\<close> is
  zero for some \<open>k < num\<close>, all earlier addresses being non-zero, then
  \<^verbatim>\<open>addr_translator_set_page_table\<close> returns \<^verbatim>\<open>-EINVAL\<close>; the writes it has made are exactly
  the low and high halves of the entries \<open>0, \<dots>, k - 1\<close>, in order, so these page-table
  registers read back the new addresses; and none of the writes goes to the base-address
  registers (\<^verbatim>\<open>0x10\<close>, \<^verbatim>\<open>0x14\<close>), the range register (\<^verbatim>\<open>0x18\<close>) or the entry-count register
  (\<^verbatim>\<open>0x8\<close>), which keep their values.
\<close>

theorem C4_partial_write_on_zero_address:
  assumes "num \<le> fst (addr_translator_get_entries_num s)"
    and "\<exists>e. unat num = 2 ^ e"
    and "k < unat num" and "k < length phys_addrs"
    and "phys_addrs ! k = 0"
    and "\<forall>j<k. phys_addrs ! j \<noteq> 0"
  shows "fst (addr_translator_set_page_table phys_addrs base_addr entry_sz num s)
           = Returned (- EINVAL)
    \<and> new_writes s (snd (addr_translator_set_page_table phys_addrs base_addr entry_sz num s))
        = table_writes phys_addrs 0 k
    \<and> (\<forall>j<k.
          word_cat
            (xocl_dr_reg_read32
               (snd (addr_translator_set_page_table phys_addrs base_addr entry_sz num s))
               (0x800 + 8 * j + 4))
            (xocl_dr_reg_read32
               (snd (addr_translator_set_page_table phys_addrs base_addr entry_sz num s))
               (0x800 + 8 * j))
          = phys_addrs ! j)
    \<and> (\<forall>w \<in> set (new_writes s
                 (snd (addr_translator_set_page_table phys_addrs base_addr entry_sz num s))).
          fst w \<notin> {0x8, 0x10, 0x14, 0x18})
    \<and> (\<forall>off \<in> {0x8, 0x10, 0x14, 0x18}.
          xocl_dr_reg_read32
            (snd (addr_translator_set_page_table phys_addrs base_addr entry_sz num s)) off
          = xocl_dr_reg_read32 s off)"
proof -
  let ?r = "addr_translator_set_page_table phys_addrs base_addr entry_sz num s"
  have pw: "is_power_of_2 (ucast num)" using assms(2) by (simp add: is_power_of_2_u32)
  have r: "?r = (Returned (- EINVAL), apply_writes (table_writes phys_addrs 0 k) s)"
    using assms(1) pw assms(3-6) by (rule set_page_table_zero_state)
  have c1: "fst ?r = Returned (- EINVAL)" by (simp add: r)
  have c2: "new_writes s (snd ?r) = table_writes phys_addrs 0 k"
    by (simp add: r new_writes_apply)
  have c3: "word_cat (xocl_dr_reg_read32 (snd ?r) (0x800 + 8 * j + 4))
                     (xocl_dr_reg_read32 (snd ?r) (0x800 + 8 * j)) = phys_addrs ! j"
    if "j < k" for j
  proof -
    have eqs: "off_page_table_lo j = 0x800 + 8 * j" "off_page_table_hi j = 0x800 + 8 * j + 4"
      by (simp_all add: off_defs)
    have "base (snd ?r) (off_page_table_lo j) = ucast (phys_addrs ! j AND 0xFFFFFFFF)"
      and "base (snd ?r) (off_page_table_hi j) = ucast (drop_bit 32 (phys_addrs ! j))"
      using base_table_entry [of 0 j k phys_addrs s] that by (simp_all add: r)
    then show ?thesis
      unfolding eqs xocl_dr_reg_read32_def by (simp add: word_cat_halves)
  qed
  have c4: "fst w \<notin> {0x8, 0x10, 0x14, 0x18}"
    if "w \<in> set (new_writes s (snd ?r))" for w
  proof -
    from that have "off_page_table_phys \<le> fst w"
      unfolding c2 by (rule table_writes_not_control)
    then show ?thesis by (auto simp add: off_defs)
  qed
  have c5: "xocl_dr_reg_read32 (snd ?r) off = xocl_dr_reg_read32 s off"
    if "off \<in> {0x8, 0x10, 0x14, 0x18}" for off
  proof -
    from that have "off < off_page_table_phys" by (auto simp add: off_defs)
    then show ?thesis
      by (simp add: r xocl_dr_reg_read32_def base_table_other)
  qed
  from c1 c2 c3 c4 c5 show ?thesis by blast
qed

theorem C4_partial_write_on_zero_address_witness:
  "(4 :: u32) \<le> fst (addr_translator_get_entries_num scenario_dev)
   \<and> (\<exists>e. unat (4 :: u32) = 2 ^ e)
   \<and> 2 < unat (4 :: u32) \<and> 2 < length [0x1000, 0x2000, 0x0, 0x4000 :: u64]
   \<and> [0x1000, 0x2000, 0x0, 0x4000 :: u64] ! 2 = 0
   \<and> [0x1000, 0x2000, 0x0, 0x4000 :: u64] ! 0 \<noteq> 0
   \<and> [0x1000, 0x2000, 0x0, 0x4000 :: u64] ! 1 \<noteq> 0
   \<and> fst (addr_translator_set_page_table [0x1000, 0x2000, 0x0, 0x4000] 0x100000000 0x1000 4
            scenario_dev) = Returned (- 22)
   \<and> new_writes scenario_dev
        (snd (addr_translator_set_page_table [0x1000, 0x2000, 0x0, 0x4000] 0x100000000 0x1000 4
                scenario_dev))
      = [(0x800, 0x1000), (0x804, 0), (0x808, 0x2000), (0x80C, 0)]
   \<and> xocl_dr_reg_read32
        (snd (addr_translator_set_page_table [0x1000, 0x2000, 0x0, 0x4000] 0x100000000 0x1000 4
                scenario_dev)) 0x8
      = 4"
proof -
  have h1: "(4 :: u32) \<le> fst (addr_translator_get_entries_num scenario_dev)"
    by (simp add: scenario_capacity)
  have h2: "\<exists>e. unat (4 :: u32) = 2 ^ e"
    using is_power_of_2_four unfolding is_power_of_2_u32 .
  have h3: "2 < unat (4 :: u32)" by simp
  have h4: "2 < length [0x1000, 0x2000, 0x0, 0x4000 :: u64]" by simp
  have h5: "[0x1000, 0x2000, 0x0, 0x4000 :: u64] ! 2 = 0" by simp
  have h6: "\<forall>j<2. [0x1000, 0x2000, 0x0, 0x4000 :: u64] ! j \<noteq> 0"
  proof (intro allI impI)
    fix j :: nat
    assume "j < 2"
    then have "j = 0 \<or> j = 1" by auto
    then show "[0x1000, 0x2000, 0x0, 0x4000 :: u64] ! j \<noteq> 0" by auto
  qed
  have old: "xocl_dr_reg_read32 scenario_dev 0x8 = 4"
    by (simp add: xocl_dr_reg_read32_def scenario_dev_def)
  from C4_partial_write_on_zero_address [OF h1 h2 h3 h4 h5 h6, of "0x100000000" "0x1000"]
  show ?thesis
    using h1 h2 h3 h4 h5 h6 old by (simp add: scenario_3_table_writes EINVAL_def)
qed

text \<open>
  C5, as amended. The product \<^verbatim>\<open>num * entry_sz\<close> is taken in 64-bit arithmetic, that is
  modulo \<open>2 ^ 64\<close>. After every call of \<^verbatim>\<open>addr_translator_set_page_table\<close> that returns
  0 and whose product is not zero, the range register at offset \<^verbatim>\<open>0x18\<close> holds the
  base-2 logarithm of the product rounded down: its value \<open>r\<close> satisfies
  \<open>2 ^ r \<le> product < 2 ^ (r + 1)\<close>. When the product is an exact power of two
  \<open>2 ^ j\<close>, the register holds \<open>j\<close>.
\<close>

theorem C5_range_register_floor_log2:
  assumes "fst (addr_translator_set_page_table phys_addrs base_addr entry_sz num s) = Returned 0"
    and "(unat num * unat entry_sz) mod 2 ^ 64 \<noteq> 0"
  shows "2 ^ unat (xocl_dr_reg_read32
                    (snd (addr_translator_set_page_table phys_addrs base_addr entry_sz num s)) 0x18)
           \<le> (unat num * unat entry_sz) mod 2 ^ 64
    \<and> (unat num * unat entry_sz) mod 2 ^ 64
         < 2 ^ (unat (xocl_dr_reg_read32
                   (snd (addr_translator_set_page_table phys_addrs base_addr entry_sz num s)) 0x18)
                + 1)
    \<and> (\<forall>j. (unat num * unat entry_sz) mod 2 ^ 64 = 2 ^ j \<longrightarrow>
          unat (xocl_dr_reg_read32
                  (snd (addr_translator_set_page_table phys_addrs base_addr entry_sz num s)) 0x18)
            = j)"
proof -
  let ?p = "ucast num * entry_sz :: u64"
  let ?r = "unat (xocl_dr_reg_read32
              (snd (addr_translator_set_page_table phys_addrs base_addr entry_sz num s)) 0x18)"
  have p: "unat ?p = (unat num * unat entry_sz) mod 2 ^ 64" by (rule unat_range)
  with assms(2) have nz: "?p \<noteq> 0" by (simp add: unat_eq_zero [symmetric] del: unat_eq_zero)
  have r: "?r = unat (word_of_int (ilog2 ?p) :: u32)"
    using range_register_value [OF assms(1)] by simp
  have b: "2 ^ ?r \<le> unat ?p \<and> unat ?p < 2 ^ (?r + 1)"
    unfolding r using ilog2_bounds [OF nz] .
  have e: "?r = j" if "unat ?p = 2 ^ j" for j
  proof -
    from b that have le: "(2::nat) ^ ?r \<le> 2 ^ j" and lt: "(2::nat) ^ j < 2 ^ (?r + 1)"
      by simp_all
    from le have "?r \<le> j" by (rule power_le_imp_le_exp [rotated]) simp
    moreover from lt have "j < ?r + 1" by (rule power_less_imp_less_exp [rotated]) simp
    ultimately show ?thesis by simp
  qed
  from b e show ?thesis unfolding p by blast
qed

theorem C5_range_register_floor_log2_witness:
  "fst (addr_translator_set_page_table [0x1000, 0x2000, 0x3000, 0x4000] 0x100000000 0x1000 4
          scenario_dev) = Returned 0
   \<and> (unat (4 :: u32) * unat (0x1000 :: u64)) mod 2 ^ 64 \<noteq> 0
   \<and> (unat (4 :: u32) * unat (0x1000 :: u64)) mod 2 ^ 64 = 2 ^ 14
   \<and> unat (xocl_dr_reg_read32
        (snd (addr_translator_set_page_table [0x1000, 0x2000, 0x3000, 0x4000] 0x100000000 0x1000 4
                scenario_dev)) 0x18) = 14"
proof -
  have h1: "fst (addr_translator_set_page_table [0x1000, 0x2000, 0x3000, 0x4000] 0x100000000
                   0x1000 4 scenario_dev) = Returned 0"
    by (rule scenario_1_accepted)
  have h2: "(unat (4 :: u32) * unat (0x1000 :: u64)) mod 2 ^ 64 \<noteq> 0" by simp
  have h3: "(unat (4 :: u32) * unat (0x1000 :: u64)) mod 2 ^ 64 = 2 ^ 14" by simp
  from C5_range_register_floor_log2 [OF h1 h2] h1 h2 h3 show ?thesis by blast
qed

theorem C5_counterexample:
  "fst (addr_translator_set_page_table [0x1000] 0x100000000 0 1 scenario_dev) = Returned 0
   \<and> (unat (1 :: u32) * unat (0 :: u64)) mod 2 ^ 64 = 0
   \<and> xocl_dr_reg_read32
        (snd (addr_translator_set_page_table [0x1000] 0x100000000 0 1 scenario_dev)) 0x18
      = 0xFFFFFFFF
   \<and> \<not> 2 ^ unat (xocl_dr_reg_read32
                    (snd (addr_translator_set_page_table [0x1000] 0x100000000 0 1 scenario_dev))
                    0x18)
         \<le> (unat (1 :: u32) * unat (0 :: u64)) mod 2 ^ 64"
proof -
  have c1: "fst (addr_translator_set_page_table [0x1000] 0x100000000 0 1 scenario_dev)
              = Returned 0"
    by (rule scenario_single_accepted)
  have c2: "(unat (1 :: u32) * unat (0 :: u64)) mod 2 ^ 64 = 0" by simp
  have c3: "xocl_dr_reg_read32
        (snd (addr_translator_set_page_table [0x1000] 0x100000000 0 1 scenario_dev)) 0x18
      = 0xFFFFFFFF"
    by (simp add: range_register_value [OF c1] ilog2_def fls64_def fls.simps)
  have c4: "\<not> 2 ^ n \<le> (unat (1 :: u32) * unat (0 :: u64)) mod 2 ^ 64" for n :: nat
    by simp
  from c1 c2 c3 c4 show ?thesis by blast
qed

text \<open>
  C6. For every value of the capability register, \<^verbatim>\<open>addr_translator_get_entries_num\<close>
  (the spec's \<^verbatim>\<open>query_entry_capacity\<close>) returns exactly \<^verbatim>\<open>(cap >> 16) & 0x1FF\<close>, where
  \<^verbatim>\<open>cap\<close> is the 32-bit register at offset \<^verbatim>\<open>0x4\<close>: as a number it is
  \<open>(cap div 2 ^ 16) mod 2 ^ 9\<close>, and bit \<open>k\<close> of the result is bit \<open>16 + k\<close> of the
  register for \<open>k < 9\<close> and clear above.
\<close>

theorem C6_query_entry_capacity:
  "fst (addr_translator_get_entries_num s) = drop_bit 16 (base s 4) AND 0x1FF
   \<and> unat (fst (addr_translator_get_entries_num s)) = (unat (base s 4) div 2 ^ 16) mod 2 ^ 9
   \<and> (\<forall>k. bit (fst (addr_translator_get_entries_num s)) k = (k < 9 \<and> bit (base s 4) (16 + k)))"
  by (simp add: addr_translator_get_entries_num_def xocl_dr_reg_read32_def off_defs
      cap_field_unat cap_field_bit)

text \<open>
  C7. The register writes of every call of \<^verbatim>\<open>addr_translator_set_page_table\<close> that returns
  0 are, in order: the low and high halves of the page-table entries \<open>0, \<dots>, num - 1\<close>,
  the low half of \<^verbatim>\<open>base_addr\<close> at \<^verbatim>\<open>0x10\<close>, its high half at \<^verbatim>\<open>0x14\<close>, the range at
  \<^verbatim>\<open>0x18\<close>, and last the entry count \<^verbatim>\<open>num\<close> at \<^verbatim>\<open>0x8\<close>. No earlier write of the call
  goes to offset \<^verbatim>\<open>0x8\<close>.
\<close>

theorem C7_entry_count_written_last:
  assumes "fst (addr_translator_set_page_table phys_addrs base_addr entry_sz num s) = Returned 0"
  shows "new_writes s (snd (addr_translator_set_page_table phys_addrs base_addr entry_sz num s))
           = table_writes phys_addrs 0 (unat num)
             @ [(0x10, ucast (base_addr AND 0xFFFFFFFF)),
                (0x14, ucast (drop_bit 32 base_addr AND 0xFFFFFFFF)),
                (0x18, word_of_int (ilog2 (ucast num * entry_sz)))]
             @ [(0x8, num)]
    \<and> last (new_writes s
               (snd (addr_translator_set_page_table phys_addrs base_addr entry_sz num s)))
        = (0x8, num)
    \<and> (\<forall>w \<in> set (butlast (new_writes s
               (snd (addr_translator_set_page_table phys_addrs base_addr entry_sz num s)))).
          fst w \<noteq> 0x8)"
proof -
  let ?n = "new_writes s
              (snd (addr_translator_set_page_table phys_addrs base_addr entry_sz num s))"
  let ?pre = "table_writes phys_addrs 0 (unat num)
             @ [(0x10, ucast (base_addr AND 0xFFFFFFFF)),
                (0x14, ucast (drop_bit 32 base_addr AND 0xFFFFFFFF)),
                (0x18, word_of_int (ilog2 (ucast num * entry_sz)))]"
  have n: "?n = ?pre @ [(0x8, num)]"
    by (simp add: set_page_table_success_state [OF assms] new_writes_apply commit_writes_def
        off_defs)
  have l: "last ?n = (0x8, num)" unfolding n by simp
  have bl: "butlast ?n = ?pre" unfolding n by (simp add: butlast_append)
  have "fst w \<noteq> 0x8" if "w \<in> set ?pre" for w
  proof (cases "w \<in> set (table_writes phys_addrs 0 (unat num))")
    case True
    then have "off_page_table_phys \<le> fst w" by (rule table_writes_not_control)
    then show ?thesis by (simp add: off_defs)
  next
    case False
    with that show ?thesis by auto
  qed
  with n l bl show ?thesis by simp
qed

theorem C7_entry_count_written_last_witness:
  "fst (addr_translator_set_page_table [0x1000, 0x2000, 0x3000, 0x4000] 0x100000000 0x1000 4
          scenario_dev) = Returned 0
   \<and> new_writes scenario_dev
        (snd (addr_translator_set_page_table [0x1000, 0x2000, 0x3000, 0x4000] 0x100000000
                0x1000 4 scenario_dev))
      = [(0x800, 0x1000), (0x804, 0), (0x808, 0x2000), (0x80C, 0),
         (0x810, 0x3000), (0x814, 0), (0x818, 0x4000), (0x81C, 0),
         (0x10, 0), (0x14, 1), (0x18, 14), (0x8, 4)]
   \<and> last (new_writes scenario_dev
        (snd (addr_translator_set_page_table [0x1000, 0x2000, 0x3000, 0x4000] 0x100000000
                0x1000 4 scenario_dev))) = (0x8, 4)
   \<and> (0x18, 14) \<in> set (butlast (new_writes scenario_dev
        (snd (addr_translator_set_page_table [0x1000, 0x2000, 0x3000, 0x4000] 0x100000000
                0x1000 4 scenario_dev))))"
proof -
  have h: "fst (addr_translator_set_page_table [0x1000, 0x2000, 0x3000, 0x4000] 0x100000000
                  0x1000 4 scenario_dev) = Returned 0"
    by (rule scenario_1_accepted)
  have m: "(0x18, 14) \<in> set (butlast (new_writes scenario_dev
        (snd (addr_translator_set_page_table [0x1000, 0x2000, 0x3000, 0x4000] 0x100000000
                0x1000 4 scenario_dev))))"
    by (simp add: scenario_1_new_writes)
  from C7_entry_count_written_last [OF h] h m scenario_1_new_writes
  show ?thesis by simp
qed

text \<open>
  C9. The checks that \<^verbatim>\<open>addr_translator_set_page_table\<close> makes before its first write, that
  \<^verbatim>\<open>num\<close> is at most the 9-bit capacity field and a power of two, bound \<^verbatim>\<open>num\<close> by 256,
  the length of \<^verbatim>\<open>page_table_phys\<close>. Whatever the call returns, each of its register
  writes goes either to one of the registers at \<^verbatim>\<open>0x8\<close>, \<^verbatim>\<open>0x10\<close>, \<^verbatim>\<open>0x14\<close>, \<^verbatim>\<open>0x18\<close> or to
  the \<^verbatim>\<open>lo\<close> or \<^verbatim>\<open>hi\<close> field of \<^verbatim>\<open>page_table_phys[i]\<close> for an index \<open>i\<close> below both
  \<^verbatim>\<open>num\<close> and 256, which lies inside the array.
\<close>

theorem C9_page_table_index_in_bounds:
  "(num \<le> fst (addr_translator_get_entries_num s) \<and> (\<exists>e. unat num = 2 ^ e)
      \<longrightarrow> unat num \<le> page_table_len)
   \<and> (\<forall>w \<in> set (new_writes s
                 (snd (addr_translator_set_page_table phys_addrs base_addr entry_sz num s))).
         fst w \<in> {0x8, 0x10, 0x14, 0x18}
         \<or> (\<exists>i. i < unat num \<and> i < page_table_len
                \<and> (fst w = off_page_table_lo i \<or> fst w = off_page_table_hi i)
                \<and> in_page_table (fst w)))"
proof (intro conjI impI ballI)
  assume "num \<le> fst (addr_translator_get_entries_num s) \<and> (\<exists>e. unat num = 2 ^ e)"
  then show "unat num \<le> page_table_len"
    using accepted_num_le_256 [of num s] by (simp add: is_power_of_2_u32 page_table_len_def)
next
  fix w
  assume w: "w \<in> set (new_writes s
                 (snd (addr_translator_set_page_table phys_addrs base_addr entry_sz num s)))"
  obtain k ws where k: "k \<le> unat num" "k \<le> 256"
    and ws: "ws = [] \<or> ws = commit_writes base_addr entry_sz num"
    and st: "snd (addr_translator_set_page_table phys_addrs base_addr entry_sz num s)
               = apply_writes (table_writes phys_addrs 0 k @ ws) s"
    using set_page_table_general_state [of num base_addr entry_sz phys_addrs s] by blast
  from w have "w \<in> set (table_writes phys_addrs 0 k) \<or> w \<in> set ws"
    by (simp add: st new_writes_apply)
  then show "fst w \<in> {0x8, 0x10, 0x14, 0x18}
         \<or> (\<exists>i. i < unat num \<and> i < page_table_len
                \<and> (fst w = off_page_table_lo i \<or> fst w = off_page_table_hi i)
                \<and> in_page_table (fst w))"
  proof
    assume "w \<in> set (table_writes phys_addrs 0 k)"
    then obtain i where i: "i < k"
      and f: "fst w = off_page_table_lo i \<or> fst w = off_page_table_hi i"
      using table_writes_offsets [of w phys_addrs 0 k] by blast
    from i k have b: "i < unat num" "i < page_table_len" by (simp_all add: page_table_len_def)
    from f b(2) have "in_page_table (fst w)"
      by (auto simp add: in_page_table_def off_defs)
    with f b show ?thesis by blast
  next
    assume "w \<in> set ws"
    with ws show ?thesis by (auto simp add: commit_writes_def off_defs)
  qed
qed

theorem C9_page_table_index_in_bounds_witness:
  "(4 :: u32) \<le> fst (addr_translator_get_entries_num scenario_dev)
   \<and> (\<exists>e. unat (4 :: u32) = 2 ^ e)
   \<and> unat (4 :: u32) \<le> page_table_len
   \<and> (0x818, 0x4000) \<in> set (new_writes scenario_dev
        (snd (addr_translator_set_page_table [0x1000, 0x2000, 0x3000, 0x4000] 0x100000000
                0x1000 4 scenario_dev)))
   \<and> (fst (0x818 :: nat, 0x4000 :: u32) \<in> {0x8, 0x10, 0x14, 0x18}
       \<or> (\<exists>i. i < unat (4 :: u32) \<and> i < page_table_len
              \<and> (fst (0x818 :: nat, 0x4000 :: u32) = off_page_table_lo i
                  \<or> fst (0x818 :: nat, 0x4000 :: u32) = off_page_table_hi i)
              \<and> in_page_table (fst (0x818 :: nat, 0x4000 :: u32))))"
proof -
  have h1: "(4 :: u32) \<le> fst (addr_translator_get_entries_num scenario_dev)"
    by (simp add: scenario_capacity)
  have h2: "\<exists>e. unat (4 :: u32) = 2 ^ e"
    using is_power_of_2_four unfolding is_power_of_2_u32 .
  have m: "(0x818, 0x4000) \<in> set (new_writes scenario_dev
        (snd (addr_translator_set_page_table [0x1000, 0x2000, 0x3000, 0x4000] 0x100000000
                0x1000 4 scenario_dev)))"
    by (simp add: scenario_1_new_writes)
  from C9_page_table_index_in_bounds
         [of 4 scenario_dev "[0x1000, 0x2000, 0x3000, 0x4000]" "0x100000000" "0x1000"]
       h1 h2 m
  show ?thesis by blast
qed

text \<open>
  C10. \<^verbatim>\<open>addr_translator_get_entries_num\<close> performs no register write: the device after
  the call is the device before it, so the log of writes has not grown and every
  register of the window holds the value it held before.
\<close>

theorem C10_query_no_writes:
  "snd (addr_translator_get_entries_num s) = s
   \<and> wlog (snd (addr_translator_get_entries_num s)) = wlog s
   \<and> (\<forall>off. base (snd (addr_translator_get_entries_num s)) off = base s off)"
  by (simp add: addr_translator_get_entries_num_def)

end
